theory Spec2Isabelle
  imports Main "HOL-Library.Word"
begin

unbundle bit_operations_syntax

section \<open>The symlink-chain tracer (internal/filewatch/filewatch.go)\<close>

text \<open>
  \<^verbatim>\<open>type symlink struct { target string; link string }\<close>
\<close>

record symlink =
  target :: string
  link :: string

text \<open>
  The filesystem is seen by the tracer only through \<^verbatim>\<open>os.Readlink\<close>: the argument
  \<open>readlink\<close> gives \<open>Some tgt\<close> when the call returns the link value \<open>tgt\<close> with a nil
  error and \<open>None\<close> when it returns an error (not a link, missing, unreadable).
  \<^verbatim>\<open>filepath.Dir\<close> belongs to the Go standard library, not to the repository; the
  tracer takes it as the parameter \<open>dir\<close>.

  \<^verbatim>\<open>traceSymlinks\<close> is a \<^verbatim>\<open>for { ... }\<close> loop with no bound, so the loop is a
  partial function: \<open>None\<close> is the run that never leaves the loop.
\<close>

partial_function (option) traceLoop ::
  "(string \<Rightarrow> string option) \<Rightarrow> (string \<Rightarrow> string) \<Rightarrow> string \<Rightarrow> symlink list
     \<Rightarrow> symlink list option" where
  "traceLoop readlink dir path ret =
     (case readlink path of
        None \<Rightarrow>
          (let parent = dir path in
           if parent = path then Some ret
           else traceLoop readlink dir parent ret)
      | Some tgt \<Rightarrow>
          traceLoop readlink dir tgt (ret @ [\<lparr>target = tgt, link = path\<rparr>]))"

declare traceLoop.simps [code]

definition traceSymlinks ::
  "(string \<Rightarrow> string option) \<Rightarrow> (string \<Rightarrow> string) \<Rightarrow> string \<Rightarrow> symlink list option" where
  "traceSymlinks readlink dir path = traceLoop readlink dir path []"

text \<open>
  One move of the cursor: to the link value when the cursor is a link, to the parent
  when it is not and the parent differs, and no move at the stop condition.
\<close>

definition cursorStep ::
  "(string \<Rightarrow> string option) \<Rightarrow> (string \<Rightarrow> string) \<Rightarrow> string \<Rightarrow> string option" where
  "cursorStep readlink dir path =
     (case readlink path of
        Some tgt \<Rightarrow> Some tgt
      | None \<Rightarrow> if dir path = path then None else Some (dir path))"

text \<open>The cursors the traversal visits when it starts at \<open>path\<close>.\<close>

inductive_set cursors ::
  "(string \<Rightarrow> string option) \<Rightarrow> (string \<Rightarrow> string) \<Rightarrow> string \<Rightarrow> string set"
  for readlink dir path where
  start: "path \<in> cursors readlink dir path"
| move: "c \<in> cursors readlink dir path \<Longrightarrow> cursorStep readlink dir c = Some c'
           \<Longrightarrow> c' \<in> cursors readlink dir path"

text \<open>
  The algorithm of section 4.1 of the specification, rule by rule: the cursor is a link
  (append the edge, continue at the link value), the cursor is not a link and has a
  different parent (ascend), the cursor is not a link and is its own parent (stop with
  the chain built so far).
\<close>

inductive traceSpec ::
  "(string \<Rightarrow> string option) \<Rightarrow> (string \<Rightarrow> string) \<Rightarrow> string \<Rightarrow> symlink list
     \<Rightarrow> symlink list \<Rightarrow> bool"
  for readlink dir where
  isLink: "readlink cursor = Some tgt
     \<Longrightarrow> traceSpec readlink dir tgt (chain @ [\<lparr>target = tgt, link = cursor\<rparr>]) res
     \<Longrightarrow> traceSpec readlink dir cursor chain res"
| ascend: "readlink cursor = None \<Longrightarrow> dir cursor \<noteq> cursor
     \<Longrightarrow> traceSpec readlink dir (dir cursor) chain res
     \<Longrightarrow> traceSpec readlink dir cursor chain res"
| atRoot: "readlink cursor = None \<Longrightarrow> dir cursor = cursor
     \<Longrightarrow> traceSpec readlink dir cursor chain chain"

code_pred traceSpec .

text \<open>
  \<^verbatim>\<open>filepath.Dir\<close> on slash-separated paths that are already clean (no empty, \<^verbatim>\<open>.\<close>
  or \<^verbatim>\<open>..\<close> element): everything before the last separator, without the trailing
  separator unless it is the root, and \<^verbatim>\<open>.\<close> when there is no separator. The
  call of \<^verbatim>\<open>filepath.Clean\<close> inside \<^verbatim>\<open>filepath.Dir\<close> is left out, so on a path that
  is not clean the two differ. It instantiates the parameter \<open>dir\<close> in the concrete
  examples, all on clean paths; the general theorems hold for every \<open>dir\<close>.
\<close>

definition filepathDir :: "string \<Rightarrow> string" where
  "filepathDir path =
     (let pre = rev (dropWhile (\<lambda>c. c \<noteq> CHR ''/'') (rev path)) in
      if pre = [] then ''.''
      else if pre = ''/'' then ''/''
      else butlast pre)"

text \<open>A symbolic link that points to itself: \<^verbatim>\<open>ln -s /a /a\<close>.\<close>

definition selfLink :: "string \<Rightarrow> string option" where
  "selfLink p = (if p = ''/a'' then Some ''/a'' else None)"

text \<open>
  The layout of a mounted configuration volume, as the repository's test builds it:
  \<^verbatim>\<open>/d/metrics.txt -> /d/data_symlink/metrics.txt\<close> and
  \<^verbatim>\<open>/d/data_symlink -> /d/datav1\<close>.
\<close>

definition volumeLinks :: "string \<Rightarrow> string option" where
  "volumeLinks p =
     (if p = ''/d/metrics.txt'' then Some ''/d/data_symlink/metrics.txt''
      else if p = ''/d/data_symlink'' then Some ''/d/datav1''
      else None)"

definition noLinks :: "string \<Rightarrow> string option" where
  "noLinks p = None"

text \<open>A rank on the six cursors of the traversal of \<open>volumeLinks\<close> from \<^verbatim>\<open>/d/metrics.txt\<close>.\<close>

definition volumeRank :: "string \<Rightarrow> nat" where
  "volumeRank p =
     (if p = ''/d/metrics.txt'' then 5
      else if p = ''/d/data_symlink/metrics.txt'' then 4
      else if p = ''/d/data_symlink'' then 3
      else if p = ''/d/datav1'' then 2
      else if p = ''/d'' then 1
      else 0)"

section \<open>Channels\<close>

text \<open>
  Every channel of the package is an unbuffered \<^verbatim>\<open>chan struct{}\<close>. A task's effect on
  its output channel is the list of operations it has performed on it, oldest first:
  \<open>Send\<close> for \<^verbatim>\<open>ch <- struct{}{}\<close> and \<open>Close\<close> for \<^verbatim>\<open>close(ch)\<close>.

  Each of the three goroutines is a \<^verbatim>\<open>for { select { ... } }\<close> loop. Its model is a
  function that handles the receive one \<^verbatim>\<open>select\<close> makes, and a loop over the
  sequence of receives made so far, which stops handling them once the goroutine has
  returned. Which receive a \<^verbatim>\<open>select\<close> makes is the scheduler's choice, so the loops
  are stated for every sequence. A send is recorded when it completes; a goroutine
  whose send is never taken makes no further receive.
\<close>

datatype chan_op = Send | Close

section \<open>The direct file watcher (the goroutine of watchFile)\<close>

text \<open>
  \<^verbatim>\<open>fsnotify.Op\<close> is a \<^verbatim>\<open>uint32\<close> bit set with
  \<^verbatim>\<open>Create Op = 1 << iota\<close>, then \<^verbatim>\<open>Write\<close>, \<^verbatim>\<open>Remove\<close>, \<^verbatim>\<open>Rename\<close>, \<^verbatim>\<open>Chmod\<close>;
  \<^verbatim>\<open>Event.Has(op)\<close> tests the bits of \<open>op\<close> in the event's \<open>Op\<close> (for the one-bit
  flags used here, \<^verbatim>\<open>o&h == h\<close> and \<^verbatim>\<open>o&h != 0\<close> agree).
\<close>

record Event =
  Name :: string
  Op :: "32 word"

definition Create :: "32 word" where "Create = 1"
definition Write :: "32 word" where "Write = 2"
definition Remove :: "32 word" where "Remove = 4"
definition Rename :: "32 word" where "Rename = 8"
definition Chmod :: "32 word" where "Chmod = 16"

definition Has :: "Event \<Rightarrow> 32 word \<Rightarrow> bool" where
  "Has event op = (Op event AND op = op)"

text \<open>
  What one \<^verbatim>\<open>select\<close> of the goroutine receives: the cancellation, a receive on
  \<^verbatim>\<open>watcher.Events\<close> (\<open>None\<close> when the channel is closed, \<^verbatim>\<open>ok == false\<close>), or a
  receive on \<^verbatim>\<open>watcher.Errors\<close>.
\<close>

datatype fw_select = FwCtxDone | FwEvent "Event option" | FwError

record fw_state =
  fw_running :: bool
  fw_watcherOpen :: bool
  fw_ret :: "chan_op list"

definition fw_init :: fw_state where
  "fw_init = \<lparr>fw_running = True, fw_watcherOpen = True, fw_ret = []\<rparr>"

text \<open>\<^verbatim>\<open>return\<close> runs the deferred \<^verbatim>\<open>watcher.Close()\<close> and \<^verbatim>\<open>close(ret)\<close>.\<close>

definition fw_return :: "fw_state \<Rightarrow> fw_state" where
  "fw_return s = s\<lparr>fw_running := False, fw_watcherOpen := False, fw_ret := fw_ret s @ [Close]\<rparr>"

fun watchFile_select :: "fw_select \<Rightarrow> fw_state \<Rightarrow> fw_state" where
  "watchFile_select FwCtxDone s = s"
| "watchFile_select (FwEvent None) s = fw_return s"
| "watchFile_select (FwEvent (Some event)) s =
     (if Has event Remove \<or> Has event Rename then fw_return s
      else if Has event Create then s
      else s\<lparr>fw_ret := fw_ret s @ [Send]\<rparr>)"
| "watchFile_select FwError s = fw_return s"

text \<open>The \<^verbatim>\<open>for\<close> loop, run on the sequence of receives its selects make.\<close>

fun watchFile_loop :: "fw_select list \<Rightarrow> fw_state \<Rightarrow> fw_state" where
  "watchFile_loop [] s = s"
| "watchFile_loop (c # cs) s =
     (if fw_running s then watchFile_loop cs (watchFile_select c s) else s)"

text \<open>The classification of section 4.3 of the specification.\<close>

datatype event_class = Terminal | Ignorable | ContentChanged

definition classify :: "Event \<Rightarrow> event_class" where
  "classify event =
     (if Has event Remove \<or> Has event Rename then Terminal
      else if Has event Create then Ignorable
      else ContentChanged)"

text \<open>The signals owed to a sequence of raw events: one per content change, up to the first terminal event.\<close>

fun forwarded :: "Event list \<Rightarrow> chan_op list" where
  "forwarded [] = []"
| "forwarded (e # es) =
     (case classify e of
        Terminal \<Rightarrow> [Close]
      | Ignorable \<Rightarrow> forwarded es
      | ContentChanged \<Rightarrow> Send # forwarded es)"

definition chmodEvent :: Event where
  "chmodEvent = \<lparr>Name = ''/tmp/filewatch/metrics.txt'', Op = Chmod\<rparr>"

definition writeEvent :: Event where
  "writeEvent = \<lparr>Name = ''/tmp/filewatch/metrics.txt'', Op = Write\<rparr>"

definition createEvent :: Event where
  "createEvent = \<lparr>Name = ''/tmp/filewatch/metrics.txt'', Op = Create\<rparr>"

definition removeEvent :: Event where
  "removeEvent = \<lparr>Name = ''/tmp/filewatch/metrics.txt'', Op = Remove\<rparr>"

section \<open>The symlink-chain watcher (the goroutine of watchSymlinks)\<close>

text \<open>
  The \<^verbatim>\<open>for _, symlink := range symlinks\<close> loop of one poll, on the filesystem as
  \<^verbatim>\<open>os.Readlink\<close> shows it at that poll: \<open>False\<close> is the \<^verbatim>\<open>return\<close> taken at the first
  edge whose read fails or whose target differs, \<open>True\<close> is the loop running to its end.
\<close>

fun symlinksUnchanged :: "(string \<Rightarrow> string option) \<Rightarrow> symlink list \<Rightarrow> bool" where
  "symlinksUnchanged readlink [] = True"
| "symlinksUnchanged readlink (s # ss) =
     (case readlink (link s) of
        None \<Rightarrow> False
      | Some tgt \<Rightarrow> if tgt \<noteq> target s then False else symlinksUnchanged readlink ss)"

text \<open>
  What one \<^verbatim>\<open>select\<close> receives: the cancellation, or the one-second timer, with the
  state of the links when the poll reads them (one state for the whole poll).
\<close>

datatype sw_select = SwCtxDone | SwTick "string \<Rightarrow> string option"

record sw_state =
  sw_running :: bool
  sw_ret :: "chan_op list"

definition sw_init :: sw_state where
  "sw_init = \<lparr>sw_running = True, sw_ret = []\<rparr>"

definition sw_return :: "sw_state \<Rightarrow> sw_state" where
  "sw_return s = s\<lparr>sw_running := False, sw_ret := sw_ret s @ [Close]\<rparr>"

fun watchSymlinks_select :: "symlink list \<Rightarrow> sw_select \<Rightarrow> sw_state \<Rightarrow> sw_state" where
  "watchSymlinks_select symlinks SwCtxDone s = sw_return s"
| "watchSymlinks_select symlinks (SwTick readlink) s =
     (if symlinksUnchanged readlink symlinks then s else sw_return s)"

fun watchSymlinks_loop :: "symlink list \<Rightarrow> sw_select list \<Rightarrow> sw_state \<Rightarrow> sw_state" where
  "watchSymlinks_loop symlinks [] s = s"
| "watchSymlinks_loop symlinks (c # cs) s =
     (if sw_running s then watchSymlinks_loop symlinks cs (watchSymlinks_select symlinks c s)
      else s)"

text \<open>Why a run of the chain watcher has ended, read off the receives it made.\<close>

definition sw_stops :: "symlink list \<Rightarrow> sw_select \<Rightarrow> bool" where
  "sw_stops symlinks c =
     (case c of SwCtxDone \<Rightarrow> True | SwTick readlink \<Rightarrow> \<not> symlinksUnchanged readlink symlinks)"

text \<open>The chain recorded for the configuration volume, and the volume after its update.\<close>

definition volumeChain :: "symlink list" where
  "volumeChain =
     [\<lparr>target = ''/d/data_symlink/metrics.txt'', link = ''/d/metrics.txt''\<rparr>,
      \<lparr>target = ''/d/datav1'', link = ''/d/data_symlink''\<rparr>]"

definition volumeLinksV2 :: "string \<Rightarrow> string option" where
  "volumeLinksV2 p =
     (if p = ''/d/metrics.txt'' then Some ''/d/data_symlink/metrics.txt''
      else if p = ''/d/data_symlink'' then Some ''/d/datav2''
      else None)"

section \<open>The orchestrator (the goroutine of Watch)\<close>

text \<open>
  What one \<^verbatim>\<open>select\<close> receives: the cancellation, a receive on \<^verbatim>\<open>fileWatcher\<close> with
  its \<^verbatim>\<open>ok\<close>, or a receive on \<^verbatim>\<open>symlinksChan\<close>.
\<close>

datatype orch_select = OrCtxDone | OrFile bool | OrSymlinks

record orch_state =
  or_running :: bool
  or_ret :: "chan_op list"

definition orch_init :: orch_state where
  "orch_init = \<lparr>or_running = True, or_ret = []\<rparr>"

definition orch_return :: "orch_state \<Rightarrow> orch_state" where
  "orch_return s = s\<lparr>or_running := False, or_ret := or_ret s @ [Close]\<rparr>"

fun Watch_select :: "orch_select \<Rightarrow> orch_state \<Rightarrow> orch_state" where
  "Watch_select OrCtxDone s = orch_return s"
| "Watch_select (OrFile ok) s =
     (if \<not> ok then orch_return s else s\<lparr>or_ret := or_ret s @ [Send]\<rparr>)"
| "Watch_select OrSymlinks s = orch_return s"

fun Watch_loop :: "orch_select list \<Rightarrow> orch_state \<Rightarrow> orch_state" where
  "Watch_loop [] s = s"
| "Watch_loop (c # cs) s =
     (if or_running s then Watch_loop cs (Watch_select c s) else s)"

text \<open>The three causes of closure named by section 4.4 of the specification.\<close>

datatype cause = ExternalCancellation | DirectWatcherClosed | ChainWatcherClosed

fun closes :: "orch_select \<Rightarrow> cause option" where
  "closes OrCtxDone = Some ExternalCancellation"
| "closes (OrFile ok) = (if ok then None else Some DirectWatcherClosed)"
| "closes OrSymlinks = Some ChainWatcherClosed"

text \<open>The cause that closes the handle on a sequence of receives: that of the first receive that returns.\<close>

fun closedBy :: "orch_select list \<Rightarrow> cause option" where
  "closedBy [] = None"
| "closedBy (c # cs) = (case closes c of Some k \<Rightarrow> Some k | None \<Rightarrow> closedBy cs)"

text \<open>
  What the orchestrator's \<^verbatim>\<open>select\<close> finds on its three channels. Go's \<^verbatim>\<open>select\<close>
  takes any one of the cases that can proceed: a closed channel can always be received
  from, an open unbuffered one only while a sender waits in its send.
\<close>

datatype chan_state = NoSender | SenderWaiting | ChanClosed

record select_env =
  ctxDone :: bool
  fileWatcherChan :: chan_state
  symlinksChanClosed :: bool

fun ready :: "select_env \<Rightarrow> orch_select \<Rightarrow> bool" where
  "ready env OrCtxDone = ctxDone env"
| "ready env (OrFile ok) =
     (if ok then fileWatcherChan env = SenderWaiting else fileWatcherChan env = ChanClosed)"
| "ready env OrSymlinks = symlinksChanClosed env"

text \<open>The chain watcher has closed its channel while the direct watcher waits in a send.\<close>

definition driftWithPendingSignal :: select_env where
  "driftWithPendingSignal =
     \<lparr>ctxDone = False, fileWatcherChan = SenderWaiting, symlinksChanClosed = True\<rparr>"

section \<open>Setting a watch up (Watch, watchFile, watchSymlinks)\<close>

text \<open>
  The operating system as the set-up calls see it: \<^verbatim>\<open>os.Stat\<close> (a nil error, an error
  for which \<^verbatim>\<open>os.IsNotExist\<close> holds, any other error), \<^verbatim>\<open>fsnotify.NewWatcher\<close> and
  \<^verbatim>\<open>watcher.Add\<close> (each fails or not), and \<^verbatim>\<open>os.Readlink\<close>.
\<close>

datatype stat_result = StatOk | StatNotExist | StatOtherError

record os_env =
  Stat :: "string \<Rightarrow> stat_result"
  newWatcherFails :: bool
  addFails :: "string \<Rightarrow> bool"
  Readlink :: "string \<Rightarrow> string option"

datatype error =
    FileDoesNotExist
  | FailedToGetFileWatcher error
  | FailedToCreateWatcher
  | FailedToWatchFile

text \<open>
  The goroutines a call has started, in the order of their \<^verbatim>\<open>go\<close> statements. The
  direct watcher carries whether its path is registered with the notifier, the chain
  watcher carries the chain it compares against.
\<close>

datatype task = WatchFileTask bool | WatchSymlinksTask "symlink list" | WatchTask

datatype handle = RetChan

text \<open>
  \<^verbatim>\<open>watcher, err := fsnotify.NewWatcher()\<close> sets \<open>err\<close>. The next statement is
  \<^verbatim>\<open>if watcher.Add(filepath); err != nil\<close>: the call is the \<^verbatim>\<open>if\<close>'s init statement,
  its result is dropped, and the condition reads the \<open>err\<close> of \<^verbatim>\<open>NewWatcher\<close>.
\<close>

definition watchFile :: "os_env \<Rightarrow> string \<Rightarrow> task list \<times> (error + handle)" where
  "watchFile env filepath =
     (let err = newWatcherFails env in
      if err then ([], Inl FailedToCreateWatcher)
      else
        (let registered = \<not> addFails env filepath in
         if err then ([], Inl FailedToWatchFile)
         else ([WatchFileTask registered], Inr RetChan)))"

text \<open>\<^verbatim>\<open>watchSymlinks\<close> traces the chain before it starts its goroutine; it returns only if the trace does.\<close>

definition watchSymlinks ::
  "os_env \<Rightarrow> (string \<Rightarrow> string) \<Rightarrow> string \<Rightarrow> (task list \<times> handle) option" where
  "watchSymlinks env dir path =
     (case traceSymlinks (Readlink env) dir path of
        None \<Rightarrow> None
      | Some symlinks \<Rightarrow> Some ([WatchSymlinksTask symlinks], RetChan))"

definition IsNotExist :: "stat_result \<Rightarrow> bool" where
  "IsNotExist err = (err = StatNotExist)"

definition Watch ::
  "os_env \<Rightarrow> (string \<Rightarrow> string) \<Rightarrow> string \<Rightarrow> (task list \<times> (error + handle)) option" where
  "Watch env dir filepath =
     (if IsNotExist (Stat env filepath) then Some ([], Inl FileDoesNotExist)
      else
        (case watchFile env filepath of
           (started, Inl err) \<Rightarrow> Some (started, Inl (FailedToGetFileWatcher err))
         | (started, Inr fileWatcher) \<Rightarrow>
             (case watchSymlinks env dir filepath of
                None \<Rightarrow> None
              | Some (started', symlinksChan) \<Rightarrow>
                  Some (started @ started' @ [WatchTask], Inr RetChan))))"


text \<open>
  A machine on which \<^verbatim>\<open>/srv/metrics.txt\<close> is a plain file and the notifier cannot
  take another watch (the inotify watch limit is reached, \<^verbatim>\<open>watcher.Add\<close> fails).
\<close>

definition watchLimitReached :: os_env where
  "watchLimitReached = \<lparr>Stat = (\<lambda>p. if p = ''/srv/metrics.txt'' then StatOk else StatNotExist),
                         newWatcherFails = False, addFails = (\<lambda>p. True), Readlink = noLinks\<rparr>"



section \<open>Properties of the tracer\<close>

lemma traceLoop_imp_traceSpec:
  assumes "traceLoop readlink dir path ret = Some res"
  shows "traceSpec readlink dir path ret res"
proof (rule traceLoop.raw_induct
    [where P = "\<lambda>rl d p r y. traceSpec rl d p r y", OF _ assms])
  fix f rl d p r y
  assume IH: "\<And>rl d p r y. f rl d p r = Some y \<Longrightarrow> traceSpec rl d p r y"
    and body: "(case rl p of
        None \<Rightarrow> (let parent = d p in if parent = p then Some r else f rl d parent r)
      | Some tgt \<Rightarrow> f rl d tgt (r @ [\<lparr>target = tgt, link = p\<rparr>])) = Some y"
  show "traceSpec rl d p r y"
  proof (cases "rl p")
    case None
    show ?thesis
    proof (cases "d p = p")
      case True
      with None body have "y = r" by simp
      with None True show ?thesis by (simp add: traceSpec.atRoot)
    next
      case False
      with None body have "f rl d (d p) r = Some y" by simp
      then have "traceSpec rl d (d p) r y" by (rule IH)
      with None False show ?thesis by (rule traceSpec.ascend)
    qed
  next
    case (Some tgt)
    with body have "f rl d tgt (r @ [\<lparr>target = tgt, link = p\<rparr>]) = Some y" by simp
    then have "traceSpec rl d tgt (r @ [\<lparr>target = tgt, link = p\<rparr>]) y" by (rule IH)
    with Some show ?thesis by (rule traceSpec.isLink)
  qed
qed

lemma traceSpec_imp_traceLoop:
  "traceSpec readlink dir path ret res \<Longrightarrow> traceLoop readlink dir path ret = Some res"
proof (induction rule: traceSpec.induct)
  case (isLink cursor tgt chain res)
  then show ?case by (subst traceLoop.simps) simp
next
  case (ascend cursor chain res)
  then show ?case by (subst traceLoop.simps) simp
next
  case (atRoot cursor chain)
  then show ?case by (subst traceLoop.simps) simp
qed

lemma cursors_step_subset:
  assumes "cursorStep readlink dir p = Some q" and "c \<in> cursors readlink dir q"
  shows "c \<in> cursors readlink dir p"
  using assms(2)
proof (induction rule: cursors.induct)
  case start
  show ?case using assms(1) by (meson cursors.start cursors.move)
next
  case (move c c')
  then show ?case by (meson cursors.move)
qed

lemma cursors_unfold:
  "cursors readlink dir p =
     insert p (case cursorStep readlink dir p of None \<Rightarrow> {} | Some q \<Rightarrow> cursors readlink dir q)"
proof (intro set_eqI iffI)
  fix c assume "c \<in> cursors readlink dir p"
  then show "c \<in> insert p (case cursorStep readlink dir p of None \<Rightarrow> {} | Some q \<Rightarrow> cursors readlink dir q)"
  proof (induction rule: cursors.induct)
    case start
    then show ?case by simp
  next
    case (move c c')
    show ?case
    proof (cases "c = p")
      case True
      with move show ?thesis by (auto intro: cursors.start)
    next
      case False
      with move show ?thesis by (auto split: option.splits intro: cursors.move)
    qed
  qed
next
  fix c assume "c \<in> insert p (case cursorStep readlink dir p of None \<Rightarrow> {} | Some q \<Rightarrow> cursors readlink dir q)"
  then show "c \<in> cursors readlink dir p"
    by (auto split: option.splits intro: cursors.start cursors_step_subset)
qed

lemma traceSpec_edges:
  "traceSpec readlink dir path ret res \<Longrightarrow>
     set res = set ret \<union>
       {\<lparr>target = t, link = c\<rparr> | c t. c \<in> cursors readlink dir path \<and> readlink c = Some t}"
proof (induction rule: traceSpec.induct)
  case (isLink cursor tgt chain res)
  have "cursorStep readlink dir cursor = Some tgt" using isLink by (simp add: cursorStep_def)
  then have "cursors readlink dir cursor = insert cursor (cursors readlink dir tgt)"
    by (subst cursors_unfold) simp
  with isLink show ?case by auto
next
  case (ascend cursor chain res)
  have "cursorStep readlink dir cursor = Some (dir cursor)" using ascend by (simp add: cursorStep_def)
  then have "cursors readlink dir cursor = insert cursor (cursors readlink dir (dir cursor))"
    by (subst cursors_unfold) simp
  with ascend show ?case by auto
next
  case (atRoot cursor chain)
  have "cursorStep readlink dir cursor = None" using atRoot by (simp add: cursorStep_def)
  then have "cursors readlink dir cursor = {cursor}"
    by (subst cursors_unfold) simp
  with atRoot show ?case by auto
qed

lemma traceSpec_extends:
  "traceSpec readlink dir path ret res \<Longrightarrow> \<exists>new. res = ret @ new"
  by (induction rule: traceSpec.induct) auto

lemma traceLoop_terminates_wf:
  assumes wfR: "wf {(q, p). p \<in> cursors readlink dir path \<and> cursorStep readlink dir p = Some q}"
  shows "c \<in> cursors readlink dir path \<Longrightarrow> \<exists>res. traceLoop readlink dir c ret = Some res"
  using wfR
proof (induction c arbitrary: ret rule: wf_induct_rule)
  case (less p)
  show ?case
  proof (cases "readlink p")
    case None
    show ?thesis
    proof (cases "dir p = p")
      case True
      with None show ?thesis by (subst traceLoop.simps) simp
    next
      case False
      with None have st: "cursorStep readlink dir p = Some (dir p)" by (simp add: cursorStep_def)
      with less.prems have "dir p \<in> cursors readlink dir path" by (rule cursors.move)
      with st less have "\<exists>res. traceLoop readlink dir (dir p) ret = Some res" by simp
      with None False show ?thesis by (subst traceLoop.simps) simp
    qed
  next
    case (Some tgt)
    then have st: "cursorStep readlink dir p = Some tgt" by (simp add: cursorStep_def)
    with less.prems have "tgt \<in> cursors readlink dir path" by (rule cursors.move)
    with st less
    have "\<exists>res. traceLoop readlink dir tgt (ret @ [\<lparr>target = tgt, link = p\<rparr>]) = Some res"
      by simp
    with Some show ?thesis by (subst traceLoop.simps) simp
  qed
qed

lemma volume_steps:
  "cursorStep volumeLinks filepathDir ''/d/metrics.txt'' = Some ''/d/data_symlink/metrics.txt''"
  "cursorStep volumeLinks filepathDir ''/d/data_symlink/metrics.txt'' = Some ''/d/data_symlink''"
  "cursorStep volumeLinks filepathDir ''/d/data_symlink'' = Some ''/d/datav1''"
  "cursorStep volumeLinks filepathDir ''/d/datav1'' = Some ''/d''"
  "cursorStep volumeLinks filepathDir ''/d'' = Some ''/''"
  "cursorStep volumeLinks filepathDir ''/'' = None"
  by (simp_all add: cursorStep_def volumeLinks_def filepathDir_def)

lemma volume_ranks:
  "volumeRank ''/d/metrics.txt'' = 5"
  "volumeRank ''/d/data_symlink/metrics.txt'' = 4"
  "volumeRank ''/d/data_symlink'' = 3"
  "volumeRank ''/d/datav1'' = 2"
  "volumeRank ''/d'' = 1"
  "volumeRank ''/'' = 0"
  by (simp_all add: volumeRank_def)

lemma volume_cursors:
  "cursors volumeLinks filepathDir ''/d/metrics.txt'' =
     {''/d/metrics.txt'', ''/d/data_symlink/metrics.txt'', ''/d/data_symlink'', ''/d/datav1'',
      ''/d'', ''/''}"
  by (subst cursors_unfold, simp add: volume_steps)+

lemma volume_descent:
  assumes "p \<in> cursors volumeLinks filepathDir ''/d/metrics.txt''"
    and "cursorStep volumeLinks filepathDir p = Some q"
  shows "volumeRank q < volumeRank p"
proof -
  from assms(1) consider "p = ''/d/metrics.txt''" | "p = ''/d/data_symlink/metrics.txt''"
    | "p = ''/d/data_symlink''" | "p = ''/d/datav1''" | "p = ''/d''" | "p = ''/''"
    unfolding volume_cursors by blast
  then show ?thesis
  proof cases
    case 1 with assms(2) show ?thesis by (auto simp: volume_steps volume_ranks)
  next
    case 2 with assms(2) show ?thesis by (auto simp: volume_steps volume_ranks)
  next
    case 3 with assms(2) show ?thesis by (auto simp: volume_steps volume_ranks)
  next
    case 4 with assms(2) show ?thesis by (auto simp: volume_steps volume_ranks)
  next
    case 5 with assms(2) show ?thesis by (auto simp: volume_steps volume_ranks)
  next
    case 6 with assms(2) show ?thesis by (simp add: volume_steps)
  qed
qed

lemma volume_wf:
  "wf {(q, p). p \<in> cursors volumeLinks filepathDir ''/d/metrics.txt''
        \<and> cursorStep volumeLinks filepathDir p = Some q}"
proof (rule wf_subset [OF wf_measure [of volumeRank]])
  show "{(q, p). p \<in> cursors volumeLinks filepathDir ''/d/metrics.txt''
        \<and> cursorStep volumeLinks filepathDir p = Some q} \<subseteq> measure volumeRank"
    using volume_descent by auto
qed

lemma selfLink_diverges_aux:
  assumes "traceLoop rl dir path ret = Some y"
  shows "\<not> (rl = selfLink \<and> path = ''/a'')"
  by (rule traceLoop.raw_induct
        [where P = "\<lambda>rl dir path ret y. \<not> (rl = selfLink \<and> path = ''/a'')", OF _ assms])
     (fastforce simp: selfLink_def)

lemma filepathDir_examples:
  "filepathDir ''/d/data_symlink/metrics.txt'' = ''/d/data_symlink''"
  "filepathDir ''/d/datav1'' = ''/d''"
  "filepathDir ''/d'' = ''/''"
  "filepathDir ''/'' = ''/''"
  by (simp_all add: filepathDir_def)

lemma volumeLinks_examples:
  "volumeLinks ''/d/metrics.txt'' = Some ''/d/data_symlink/metrics.txt''"
  "volumeLinks ''/d/data_symlink/metrics.txt'' = None"
  "volumeLinks ''/d/data_symlink'' = Some ''/d/datav1''"
  "volumeLinks ''/d/datav1'' = None"
  "volumeLinks ''/d'' = None"
  "volumeLinks ''/'' = None"
  by (simp_all add: volumeLinks_def)

lemma volume_trace:
  "traceSymlinks volumeLinks filepathDir ''/d/metrics.txt'' = Some volumeChain"
  unfolding traceSymlinks_def volumeChain_def
  by (subst traceLoop.simps, simp add: volumeLinks_examples filepathDir_examples)+

text \<open>
  C4. For every path and filesystem state, the tracer returns a chain exactly when the
  algorithm of the specification (link: record the edge and continue at the link value;
  not a link: ascend, or stop when the parent is the cursor) produces that chain from
  the empty one. The chain then holds exactly the links among the visited cursors, a
  link at the path itself is its first edge (edges are appended in the order of
  discovery), and the chain is empty exactly when no visited cursor is a link.
\<close>

theorem traceSymlinks_follows_algorithm:
  "(traceSymlinks readlink dir path = Some chain \<longleftrightarrow> traceSpec readlink dir path [] chain) \<and>
   (traceSymlinks readlink dir path = Some chain \<longrightarrow>
      set chain =
        {\<lparr>target = t, link = c\<rparr> | c t. c \<in> cursors readlink dir path \<and> readlink c = Some t} \<and>
      (\<forall>tgt. readlink path = Some tgt \<longrightarrow> (\<exists>rest. chain = \<lparr>target = tgt, link = path\<rparr> # rest)) \<and>
      (chain = [] \<longleftrightarrow> (\<forall>c \<in> cursors readlink dir path. readlink c = None)))"
proof (intro conjI impI)
  show eq: "traceSymlinks readlink dir path = Some chain \<longleftrightarrow> traceSpec readlink dir path [] chain"
    unfolding traceSymlinks_def
    using traceLoop_imp_traceSpec traceSpec_imp_traceLoop by blast
  assume run: "traceSymlinks readlink dir path = Some chain"
  with eq have spec: "traceSpec readlink dir path [] chain" by simp
  from traceSpec_edges [OF spec]
  show edges: "set chain =
      {\<lparr>target = t, link = c\<rparr> | c t. c \<in> cursors readlink dir path \<and> readlink c = Some t}"
    by simp
  show "\<forall>tgt. readlink path = Some tgt \<longrightarrow> (\<exists>rest. chain = \<lparr>target = tgt, link = path\<rparr> # rest)"
  proof (intro allI impI)
    fix tgt assume l: "readlink path = Some tgt"
    from run have "traceLoop readlink dir path [] = Some chain" by (simp add: traceSymlinks_def)
    with l have "traceLoop readlink dir tgt [\<lparr>target = tgt, link = path\<rparr>] = Some chain"
      by (subst (asm) traceLoop.simps) simp
    then have "traceSpec readlink dir tgt [\<lparr>target = tgt, link = path\<rparr>] chain"
      by (rule traceLoop_imp_traceSpec)
    from traceSpec_extends [OF this]
    show "\<exists>rest. chain = \<lparr>target = tgt, link = path\<rparr> # rest" by simp
  qed
  show "chain = [] \<longleftrightarrow> (\<forall>c \<in> cursors readlink dir path. readlink c = None)"
  proof
    assume empty: "chain = []"
    show "\<forall>c \<in> cursors readlink dir path. readlink c = None"
    proof
      fix c assume c: "c \<in> cursors readlink dir path"
      show "readlink c = None"
      proof (cases "readlink c")
        case None
        then show ?thesis .
      next
        case (Some t)
        with c have "\<lparr>target = t, link = c\<rparr> \<in> set chain" unfolding edges by blast
        with empty show ?thesis by simp
      qed
    qed
  next
    assume none: "\<forall>c \<in> cursors readlink dir path. readlink c = None"
    have "set chain = {}"
    proof (rule ccontr)
      assume "set chain \<noteq> {}"
      then obtain e where "e \<in> set chain" by (cases chain) auto
      then obtain c t where "c \<in> cursors readlink dir path" and "readlink c = Some t"
        unfolding edges by auto
      with none show False by simp
    qed
    then show "chain = []" by simp
  qed
qed

theorem traceSymlinks_follows_algorithm_witness:
  "traceSpec volumeLinks filepathDir ''/d/metrics.txt'' [] volumeChain \<and>
   set volumeChain =
     {\<lparr>target = t, link = c\<rparr> | c t.
        c \<in> cursors volumeLinks filepathDir ''/d/metrics.txt'' \<and> volumeLinks c = Some t} \<and>
   (\<exists>rest. volumeChain =
      \<lparr>target = ''/d/data_symlink/metrics.txt'', link = ''/d/metrics.txt''\<rparr> # rest) \<and>
   volumeChain \<noteq> [] \<and>
   (\<exists>c \<in> cursors volumeLinks filepathDir ''/d/metrics.txt''. volumeLinks c \<noteq> None)"
proof -
  note alg = traceSymlinks_follows_algorithm
         [of volumeLinks filepathDir "''/d/metrics.txt''" volumeChain]
  have ne: "volumeChain \<noteq> []" by (simp add: volumeChain_def)
  from alg volume_trace have spec: "traceSpec volumeLinks filepathDir ''/d/metrics.txt'' [] volumeChain"
    by simp
  from alg volume_trace have edges: "set volumeChain =
     {\<lparr>target = t, link = c\<rparr> | c t.
        c \<in> cursors volumeLinks filepathDir ''/d/metrics.txt'' \<and> volumeLinks c = Some t}"
    by simp
  from alg volume_trace have "\<forall>tgt. volumeLinks ''/d/metrics.txt'' = Some tgt \<longrightarrow>
      (\<exists>rest. volumeChain = \<lparr>target = tgt, link = ''/d/metrics.txt''\<rparr> # rest)"
    by simp
  then have first: "\<exists>rest. volumeChain =
      \<lparr>target = ''/d/data_symlink/metrics.txt'', link = ''/d/metrics.txt''\<rparr> # rest"
    by (simp add: volumeLinks_examples)
  from alg volume_trace
  have "volumeChain = [] \<longleftrightarrow>
      (\<forall>c \<in> cursors volumeLinks filepathDir ''/d/metrics.txt''. volumeLinks c = None)"
    by simp
  with ne have some: "\<exists>c \<in> cursors volumeLinks filepathDir ''/d/metrics.txt''. volumeLinks c \<noteq> None"
    by simp
  from spec edges first ne some show ?thesis by simp
qed

text \<open>
  C7 as stated fails: on a link that points to itself the tracer never returns.
\<close>

theorem traceSymlinks_cycle_diverges:
  "traceSymlinks selfLink filepathDir ''/a'' = None"
proof (cases "traceSymlinks selfLink filepathDir ''/a''")
  case None
  then show ?thesis .
next
  case (Some chain)
  then have "traceLoop selfLink filepathDir ''/a'' [] = Some chain"
    by (simp add: traceSymlinks_def)
  from selfLink_diverges_aux [OF this] show ?thesis by simp
qed

text \<open>
  C7, amended. The tracer returns for every path and filesystem state in which the
  moves of the cursor (to the link value, or to a different parent) are well-founded
  on the cursors visited from the path: no infinite descent, hence no cycle of links.
\<close>

theorem traceSymlinks_terminates:
  assumes "wf {(q, p). p \<in> cursors readlink dir path \<and> cursorStep readlink dir p = Some q}"
  shows "\<exists>chain. traceSymlinks readlink dir path = Some chain"
  unfolding traceSymlinks_def
  using traceLoop_terminates_wf [OF assms cursors.start] .

theorem traceSymlinks_terminates_witness:
  "wf {(q, p). p \<in> cursors volumeLinks filepathDir ''/d/metrics.txt''
        \<and> cursorStep volumeLinks filepathDir p = Some q} \<and>
   (\<exists>chain. traceSymlinks volumeLinks filepathDir ''/d/metrics.txt'' = Some chain)"
  using traceSymlinks_terminates [OF volume_wf] volume_wf by simp

section \<open>Properties of the direct file watcher\<close>

lemma watchFile_loop_stopped: "\<not> fw_running s \<Longrightarrow> watchFile_loop cs s = s"
  by (cases cs) simp_all

lemma watchFile_select_classify:
  "watchFile_select (FwEvent (Some event)) s =
     (case classify event of
        Terminal \<Rightarrow> s\<lparr>fw_running := False, fw_watcherOpen := False, fw_ret := fw_ret s @ [Close]\<rparr>
      | Ignorable \<Rightarrow> s
      | ContentChanged \<Rightarrow> s\<lparr>fw_ret := fw_ret s @ [Send]\<rparr>)"
  by (simp add: classify_def fw_return_def)

lemma watchFile_loop_ret:
  "fw_running s \<Longrightarrow>
     fw_ret (watchFile_loop (map (\<lambda>e. FwEvent (Some e)) events) s) = fw_ret s @ forwarded events"
proof (induction events arbitrary: s)
  case Nil
  then show ?case by simp
next
  case (Cons e events)
  show ?case
  proof (cases "classify e")
    case Terminal
    then have "watchFile_select (FwEvent (Some e)) s =
        s\<lparr>fw_running := False, fw_watcherOpen := False, fw_ret := fw_ret s @ [Close]\<rparr>"
      unfolding watchFile_select_classify by simp
    with Cons.prems Terminal show ?thesis by (simp add: watchFile_loop_stopped)
  next
    case Ignorable
    then have "watchFile_select (FwEvent (Some e)) s = s"
      unfolding watchFile_select_classify by simp
    with Cons.prems Ignorable Cons.IH [OF Cons.prems] show ?thesis by simp
  next
    case ContentChanged
    then have sel: "watchFile_select (FwEvent (Some e)) s = s\<lparr>fw_ret := fw_ret s @ [Send]\<rparr>"
      unfolding watchFile_select_classify by simp
    have "fw_running (s\<lparr>fw_ret := fw_ret s @ [Send]\<rparr>)" using Cons.prems by simp
    from Cons.IH [OF this] sel Cons.prems ContentChanged show ?thesis by simp
  qed
qed

lemma watchFile_loop_running:
  "fw_running s \<Longrightarrow>
     fw_running (watchFile_loop (map (\<lambda>e. FwEvent (Some e)) events) s)
       \<longleftrightarrow> (\<forall>e \<in> set events. classify e \<noteq> Terminal)"
proof (induction events arbitrary: s)
  case Nil
  then show ?case by simp
next
  case (Cons e events)
  show ?case
  proof (cases "classify e")
    case Terminal
    then have "watchFile_select (FwEvent (Some e)) s =
        s\<lparr>fw_running := False, fw_watcherOpen := False, fw_ret := fw_ret s @ [Close]\<rparr>"
      unfolding watchFile_select_classify by simp
    with Cons.prems Terminal show ?thesis by (simp add: watchFile_loop_stopped)
  next
    case Ignorable
    then have "watchFile_select (FwEvent (Some e)) s = s"
      unfolding watchFile_select_classify by simp
    with Cons.prems Ignorable Cons.IH [OF Cons.prems] show ?thesis by simp
  next
    case ContentChanged
    then have sel: "watchFile_select (FwEvent (Some e)) s = s\<lparr>fw_ret := fw_ret s @ [Send]\<rparr>"
      unfolding watchFile_select_classify by simp
    have "fw_running (s\<lparr>fw_ret := fw_ret s @ [Send]\<rparr>)" using Cons.prems by simp
    from Cons.IH [OF this] sel Cons.prems ContentChanged show ?thesis by simp
  qed
qed

lemma forwarded_all_changes:
  "\<forall>e \<in> set events. classify e = ContentChanged \<Longrightarrow>
     forwarded events = replicate (length events) Send"
  by (induction events) simp_all

lemma classify_examples:
  "classify chmodEvent = ContentChanged"
  "classify writeEvent = ContentChanged"
  "classify createEvent = Ignorable"
  "classify removeEvent = Terminal"
  by (simp_all add: classify_def Has_def chmodEvent_def writeEvent_def createEvent_def
        removeEvent_def Create_def Write_def Remove_def Rename_def Chmod_def)

text \<open>
  C1. Every raw event the direct watcher receives is classified: with Remove or Rename
  it closes its channel, closes the notifier and stops; otherwise with Create it does
  nothing; otherwise it performs exactly one send. On a sequence of raw events the
  channel carries one send per content change up to the first terminal event, the task
  runs on exactly while no terminal event has come, and \<open>n\<close> content changes give \<open>n\<close>
  sends: nothing is coalesced.
\<close>

theorem watchFile_classifies_events:
  "fw_running s \<Longrightarrow>
     watchFile_select (FwEvent (Some event)) s =
       (if Has event Remove \<or> Has event Rename
          then s\<lparr>fw_running := False, fw_watcherOpen := False, fw_ret := fw_ret s @ [Close]\<rparr>
        else if Has event Create then s
        else s\<lparr>fw_ret := fw_ret s @ [Send]\<rparr>) \<and>
     fw_ret (watchFile_loop (map (\<lambda>e. FwEvent (Some e)) events) s) = fw_ret s @ forwarded events \<and>
     (fw_running (watchFile_loop (map (\<lambda>e. FwEvent (Some e)) events) s)
        \<longleftrightarrow> (\<forall>e \<in> set events. classify e \<noteq> Terminal)) \<and>
     ((\<forall>e \<in> set events. classify e = ContentChanged) \<longrightarrow>
        fw_ret (watchFile_loop (map (\<lambda>e. FwEvent (Some e)) events) s)
          = fw_ret s @ replicate (length events) Send)"
proof (intro conjI impI)
  assume run: "fw_running s"
  show "watchFile_select (FwEvent (Some event)) s =
       (if Has event Remove \<or> Has event Rename
          then s\<lparr>fw_running := False, fw_watcherOpen := False, fw_ret := fw_ret s @ [Close]\<rparr>
        else if Has event Create then s
        else s\<lparr>fw_ret := fw_ret s @ [Send]\<rparr>)"
    by (simp add: fw_return_def)
  show ret: "fw_ret (watchFile_loop (map (\<lambda>e. FwEvent (Some e)) events) s) = fw_ret s @ forwarded events"
    using run by (rule watchFile_loop_ret)
  show "fw_running (watchFile_loop (map (\<lambda>e. FwEvent (Some e)) events) s)
        \<longleftrightarrow> (\<forall>e \<in> set events. classify e \<noteq> Terminal)"
    using run by (rule watchFile_loop_running)
  assume "\<forall>e \<in> set events. classify e = ContentChanged"
  then show "fw_ret (watchFile_loop (map (\<lambda>e. FwEvent (Some e)) events) s)
          = fw_ret s @ replicate (length events) Send"
    unfolding ret by (simp add: forwarded_all_changes)
qed

theorem watchFile_classifies_events_witness:
  "fw_running fw_init \<and>
   watchFile_select (FwEvent (Some removeEvent)) fw_init
     = \<lparr>fw_running = False, fw_watcherOpen = False, fw_ret = [Close]\<rparr> \<and>
   fw_ret (watchFile_loop [FwEvent (Some chmodEvent), FwEvent (Some writeEvent)] fw_init)
     = [Send, Send] \<and>
   fw_running (watchFile_loop [FwEvent (Some chmodEvent), FwEvent (Some writeEvent)] fw_init)"
proof -
  have run: "fw_running fw_init" by (simp add: fw_init_def)
  note cls = watchFile_classifies_events [OF run, of removeEvent "[chmodEvent, writeEvent]"]
  have rm: "Has removeEvent Remove"
    by (simp add: Has_def removeEvent_def Remove_def)
  from cls rm have a: "watchFile_select (FwEvent (Some removeEvent)) fw_init
     = \<lparr>fw_running = False, fw_watcherOpen = False, fw_ret = [Close]\<rparr>"
    by (simp add: fw_init_def)
  from cls have b: "fw_ret (watchFile_loop [FwEvent (Some chmodEvent), FwEvent (Some writeEvent)] fw_init)
     = [Send, Send]"
    by (simp add: classify_examples fw_init_def)
  from cls have c: "fw_running (watchFile_loop [FwEvent (Some chmodEvent), FwEvent (Some writeEvent)] fw_init)"
    by (simp add: classify_examples)
  from run a b c show ?thesis by simp
qed

text \<open>
  C6 fails on the code: the \<^verbatim>\<open>case <-ctx.Done():\<close> of the direct watcher has an empty
  body, so however often the cancellation is received the task is still in its loop,
  the notifier is still open and the channel is not closed.
\<close>

theorem watchFile_ignores_cancellation:
  "watchFile_loop (replicate n FwCtxDone) fw_init
     = \<lparr>fw_running = True, fw_watcherOpen = True, fw_ret = []\<rparr>"
  by (induction n) (simp_all add: fw_init_def)

section \<open>Properties of the chain watcher and of the set-up\<close>

lemma symlinksUnchanged_iff:
  "symlinksUnchanged readlink symlinks \<longleftrightarrow>
     (\<forall>e \<in> set symlinks. readlink (link e) = Some (target e))"
  by (induction symlinks) (auto split: option.splits)

lemma watchSymlinks_loop_stopped: "\<not> sw_running s \<Longrightarrow> watchSymlinks_loop symlinks cs s = s"
  by (cases cs) simp_all

lemma watchSymlinks_loop_ticks:
  "sw_running s \<Longrightarrow>
     watchSymlinks_loop symlinks (map SwTick polls) s =
       (if \<forall>readlink \<in> set polls. symlinksUnchanged readlink symlinks then s else sw_return s)"
proof (induction polls arbitrary: s)
  case Nil
  then show ?case by simp
next
  case (Cons readlink polls)
  show ?case
  proof (cases "symlinksUnchanged readlink symlinks")
    case True
    with Cons.prems Cons.IH [OF Cons.prems] show ?thesis by simp
  next
    case False
    have "\<not> sw_running (sw_return s)" by (simp add: sw_return_def)
    then have "watchSymlinks_loop symlinks (map SwTick polls) (sw_return s) = sw_return s"
      by (rule watchSymlinks_loop_stopped)
    with False Cons.prems show ?thesis by simp
  qed
qed

lemma watchSymlinks_loop_shape:
  "sw_running s \<Longrightarrow>
     watchSymlinks_loop symlinks cs s =
       (if \<exists>c \<in> set cs. sw_stops symlinks c then sw_return s else s)"
proof (induction cs arbitrary: s)
  case Nil
  then show ?case by simp
next
  case (Cons c cs)
  show ?case
  proof (cases "sw_stops symlinks c")
    case True
    then have sel: "watchSymlinks_select symlinks c s = sw_return s"
      by (cases c) (simp_all add: sw_stops_def)
    have "\<not> sw_running (sw_return s)" by (simp add: sw_return_def)
    then have "watchSymlinks_loop symlinks cs (sw_return s) = sw_return s"
      by (rule watchSymlinks_loop_stopped)
    with True sel Cons.prems show ?thesis by simp
  next
    case False
    then have sel: "watchSymlinks_select symlinks c s = s"
      by (cases c) (simp_all add: sw_stops_def)
    with False Cons.prems Cons.IH [OF Cons.prems] show ?thesis by simp
  qed
qed

lemma volumeChain_examples:
  "symlinksUnchanged volumeLinks volumeChain"
  "\<not> symlinksUnchanged volumeLinksV2 volumeChain"
  by (simp_all add: volumeChain_def volumeLinks_def volumeLinksV2_def)

text \<open>
  C2. For a non-empty chain, a poll finds the chain unchanged exactly when every edge's
  link reads back the recorded target; a poll in which some read fails or differs closes
  the channel and ends the task whatever comes later (no retry); a poll in which none
  does leaves the task as it was, with the same recorded chain; so over any sequence of
  polls the task is still running exactly when every poll matched the original snapshot.
\<close>

theorem watchSymlinks_poll_detects_drift:
  "symlinks \<noteq> [] \<Longrightarrow> sw_running s \<Longrightarrow>
     (symlinksUnchanged readlink symlinks \<longleftrightarrow>
        (\<forall>e \<in> set symlinks. readlink (link e) = Some (target e))) \<and>
     ((\<exists>e \<in> set symlinks. readlink (link e) \<noteq> Some (target e)) \<longrightarrow>
        watchSymlinks_loop symlinks (SwTick readlink # rest) s
          = s\<lparr>sw_running := False, sw_ret := sw_ret s @ [Close]\<rparr>) \<and>
     ((\<forall>e \<in> set symlinks. readlink (link e) = Some (target e)) \<longrightarrow>
        watchSymlinks_loop symlinks (SwTick readlink # rest) s
          = watchSymlinks_loop symlinks rest s) \<and>
     (sw_running (watchSymlinks_loop symlinks (map SwTick polls) s) \<longleftrightarrow>
        (\<forall>poll \<in> set polls. \<forall>e \<in> set symlinks. poll (link e) = Some (target e)))"
proof (intro conjI impI)
  assume run: "sw_running s"
  show "symlinksUnchanged readlink symlinks \<longleftrightarrow>
        (\<forall>e \<in> set symlinks. readlink (link e) = Some (target e))"
    by (rule symlinksUnchanged_iff)
  show "sw_running (watchSymlinks_loop symlinks (map SwTick polls) s) \<longleftrightarrow>
        (\<forall>poll \<in> set polls. \<forall>e \<in> set symlinks. poll (link e) = Some (target e))"
    unfolding watchSymlinks_loop_ticks [OF run]
    using run by (simp add: symlinksUnchanged_iff sw_return_def)
next
  assume run: "sw_running s"
    and "\<exists>e \<in> set symlinks. readlink (link e) \<noteq> Some (target e)"
  then have "\<not> symlinksUnchanged readlink symlinks" by (simp add: symlinksUnchanged_iff)
  with run show "watchSymlinks_loop symlinks (SwTick readlink # rest) s
          = s\<lparr>sw_running := False, sw_ret := sw_ret s @ [Close]\<rparr>"
    by (simp add: watchSymlinks_loop_stopped sw_return_def)
next
  assume run: "sw_running s"
    and "\<forall>e \<in> set symlinks. readlink (link e) = Some (target e)"
  then have "symlinksUnchanged readlink symlinks" by (simp add: symlinksUnchanged_iff)
  with run show "watchSymlinks_loop symlinks (SwTick readlink # rest) s
          = watchSymlinks_loop symlinks rest s"
    by simp
qed

theorem watchSymlinks_poll_detects_drift_witness:
  "volumeChain \<noteq> [] \<and> sw_running sw_init \<and>
   (\<exists>e \<in> set volumeChain. volumeLinksV2 (link e) \<noteq> Some (target e)) \<and>
   watchSymlinks_loop volumeChain [SwTick volumeLinksV2, SwTick volumeLinks] sw_init
     = \<lparr>sw_running = False, sw_ret = [Close]\<rparr> \<and>
   list_all (\<lambda>e. volumeLinks (link e) = Some (target e)) volumeChain \<and>
   watchSymlinks_loop volumeChain [SwTick volumeLinks, SwTick volumeLinks] sw_init
     = watchSymlinks_loop volumeChain [SwTick volumeLinks] sw_init"
proof -
  have ne: "volumeChain \<noteq> []" by (simp add: volumeChain_def)
  have run: "sw_running sw_init" by (simp add: sw_init_def)
  note drift = watchSymlinks_poll_detects_drift
    [OF ne run, of volumeLinksV2 "[SwTick volumeLinks]" "[]"]
  note same = watchSymlinks_poll_detects_drift
    [OF ne run, of volumeLinks "[SwTick volumeLinks]" "[]"]
  have d: "\<exists>e \<in> set volumeChain. volumeLinksV2 (link e) \<noteq> Some (target e)"
    using volumeChain_examples(2) by (simp add: symlinksUnchanged_iff)
  from drift d
  have "watchSymlinks_loop volumeChain (SwTick volumeLinksV2 # [SwTick volumeLinks]) sw_init
     = sw_init\<lparr>sw_running := False, sw_ret := sw_ret sw_init @ [Close]\<rparr>"
    by blast
  then have a: "watchSymlinks_loop volumeChain [SwTick volumeLinksV2, SwTick volumeLinks] sw_init
     = \<lparr>sw_running = False, sw_ret = [Close]\<rparr>"
    by (simp add: sw_init_def)
  have u: "\<forall>e \<in> set volumeChain. volumeLinks (link e) = Some (target e)"
    using volumeChain_examples(1) by (simp add: symlinksUnchanged_iff)
  from same u
  have b: "watchSymlinks_loop volumeChain (SwTick volumeLinks # [SwTick volumeLinks]) sw_init
     = watchSymlinks_loop volumeChain [SwTick volumeLinks] sw_init"
    by blast
  from u have x: "list_all (\<lambda>e. volumeLinks (link e) = Some (target e)) volumeChain"
    by (simp add: list_all_iff)
  from ne run d a x b show ?thesis by simp
qed

text \<open>
  C10. For every chain, empty or not, and every sequence of receives, the chain
  watcher never sends on its channel: the channel's history is empty, or the single
  close, and it is the close exactly when the task has ended, which happens exactly
  when the cancellation was received or a poll found a failed read or a changed target.
\<close>

theorem watchSymlinks_only_closes:
  "Send \<notin> set (sw_ret (watchSymlinks_loop symlinks cs sw_init)) \<and>
   (sw_ret (watchSymlinks_loop symlinks cs sw_init) =
      (if \<exists>c \<in> set cs. sw_stops symlinks c then [Close] else [])) \<and>
   (sw_running (watchSymlinks_loop symlinks cs sw_init) \<longleftrightarrow>
      \<not> (\<exists>c \<in> set cs. sw_stops symlinks c))"
proof -
  have run: "sw_running sw_init" by (simp add: sw_init_def)
  show ?thesis
    unfolding watchSymlinks_loop_shape [OF run]
    by (simp add: sw_init_def sw_return_def)
qed

theorem watchSymlinks_only_closes_witness:
  "Send \<notin> set (sw_ret (watchSymlinks_loop [] [SwTick noLinks, SwCtxDone] sw_init)) \<and>
   sw_ret (watchSymlinks_loop [] [SwTick noLinks, SwCtxDone] sw_init) = [Close] \<and>
   \<not> sw_running (watchSymlinks_loop [] [SwTick noLinks, SwCtxDone] sw_init)"
proof -
  have stop: "\<exists>c \<in> set [SwTick noLinks, SwCtxDone]. sw_stops [] c" by (simp add: sw_stops_def)
  from watchSymlinks_only_closes [of "[]" "[SwTick noLinks, SwCtxDone]"] stop
  show ?thesis by simp
qed

lemma noLinks_trace:
  "traceSymlinks noLinks filepathDir ''/srv/metrics.txt'' = Some []"
proof -
  have d: "filepathDir ''/srv/metrics.txt'' = ''/srv''" "filepathDir ''/srv'' = ''/''"
    "filepathDir ''/'' = ''/''"
    by (simp_all add: filepathDir_def)
  show ?thesis
    unfolding traceSymlinks_def
    by (subst traceLoop.simps, simp add: noLinks_def d)+
qed







text \<open>
  C5 fails on the code: when \<^verbatim>\<open>watcher.Add\<close> fails, \<^verbatim>\<open>watchFile\<close> drops its error,
  and \<^verbatim>\<open>Watch\<close> returns a handle with a nil error after starting all three goroutines,
  the direct watcher on a notifier that watches nothing.
\<close>

theorem Watch_drops_add_error:
  "addFails watchLimitReached ''/srv/metrics.txt'' \<and>
   Watch watchLimitReached filepathDir ''/srv/metrics.txt''
     = Some ([WatchFileTask False, WatchSymlinksTask [], WatchTask], Inr RetChan)"
  by (simp add: Watch_def IsNotExist_def watchFile_def watchSymlinks_def watchLimitReached_def
        noLinks_trace)

section \<open>Properties of the orchestrator\<close>

lemma Watch_loop_stopped: "\<not> or_running s \<Longrightarrow> Watch_loop cs s = s"
  by (cases cs) simp_all

lemma closes_None: "closes c = None \<longleftrightarrow> c = OrFile True"
  by (cases c) simp_all

lemma Watch_select_forward:
  "closes c = None \<Longrightarrow> Watch_select c s = s\<lparr>or_ret := or_ret s @ [Send]\<rparr>"
  by (simp add: closes_None)

lemma Watch_select_return:
  "closes c = Some k \<Longrightarrow> Watch_select c s = orch_return s"
  by (cases c) (simp_all split: if_splits)

lemma Watch_loop_forwards:
  "or_running s \<Longrightarrow> \<forall>x \<in> set pre. closes x = None \<Longrightarrow>
     Watch_loop (pre @ rest) s =
       Watch_loop rest (s\<lparr>or_ret := or_ret s @ replicate (length pre) Send\<rparr>)"
proof (induction pre arbitrary: s)
  case Nil
  then show ?case by simp
next
  case (Cons c pre)
  from Cons.prems have c: "closes c = None" and pre: "\<forall>x \<in> set pre. closes x = None"
    by simp_all
  let ?s1 = "s\<lparr>or_ret := or_ret s @ [Send]\<rparr>"
  have run1: "or_running ?s1" using Cons.prems(1) by simp
  have "Watch_loop ((c # pre) @ rest) s = Watch_loop (pre @ rest) ?s1"
    using Cons.prems(1) c by (simp add: Watch_select_forward)
  also have "\<dots> = Watch_loop rest (?s1\<lparr>or_ret := or_ret ?s1 @ replicate (length pre) Send\<rparr>)"
    using Cons.IH [OF run1 pre] .
  also have "?s1\<lparr>or_ret := or_ret ?s1 @ replicate (length pre) Send\<rparr> =
      s\<lparr>or_ret := or_ret s @ replicate (length (c # pre)) Send\<rparr>"
    by simp
  finally show ?case .
qed

lemma closedBy_None: "closedBy cs = None \<longleftrightarrow> (\<forall>x \<in> set cs. closes x = None)"
  by (induction cs) (auto split: option.splits)

lemma closedBy_Some:
  "closedBy cs = Some k \<Longrightarrow>
     \<exists>pre c post. cs = pre @ c # post \<and> (\<forall>x \<in> set pre. closes x = None) \<and> closes c = Some k"
proof (induction cs)
  case Nil
  then show ?case by simp
next
  case (Cons a cs)
  show ?case
  proof (cases "closes a")
    case None
    with Cons.prems have "closedBy cs = Some k" by simp
    from Cons.IH [OF this] obtain pre c post where
      "cs = pre @ c # post" "\<forall>x \<in> set pre. closes x = None" "closes c = Some k" by blast
    with None have "a # cs = (a # pre) @ c # post \<and> (\<forall>x \<in> set (a # pre). closes x = None)
        \<and> closes c = Some k" by simp
    then show ?thesis by blast
  next
    case (Some k')
    with Cons.prems have "k' = k" by simp
    with Some have "a # cs = [] @ a # cs \<and> (\<forall>x \<in> set []. closes x = None) \<and> closes a = Some k"
      by simp
    then show ?thesis by blast
  qed
qed

lemma Watch_loop_closes:
  assumes "or_running s" and "\<forall>x \<in> set pre. closes x = None" and "closes c = Some k"
  shows "Watch_loop (pre @ c # post) s =
           s\<lparr>or_running := False, or_ret := or_ret s @ replicate (length pre) Send @ [Close]\<rparr>"
proof -
  let ?s1 = "s\<lparr>or_ret := or_ret s @ replicate (length pre) Send\<rparr>"
  have "Watch_loop (pre @ c # post) s = Watch_loop (c # post) ?s1"
    using Watch_loop_forwards [OF assms(1,2)] .
  also have "\<dots> = Watch_loop post (orch_return ?s1)"
    using assms(1,3) by (simp add: Watch_select_return)
  also have "\<dots> = orch_return ?s1"
    by (rule Watch_loop_stopped) (simp add: orch_return_def)
  also have "\<dots> = s\<lparr>or_running := False, or_ret := or_ret s @ replicate (length pre) Send @ [Close]\<rparr>"
    by (simp add: orch_return_def)
  finally show ?thesis .
qed

lemma count_list_replicate_Send: "count_list (replicate n Send) Close = 0"
  by (induction n) simp_all

text \<open>
  C3. On every sequence of receives the orchestrator's handle is closed at most once and
  the close is the last thing on it; the orchestrator runs on exactly while no receive
  was one of the three closing ones, and when it has stopped the handle carries one send
  per direct-watcher signal received before the first closing receive, then the close,
  whose cause is that receive's: cancellation, direct-watcher stream closed, or
  chain-watcher stream closed.
\<close>

theorem Watch_closes_once:
  "(or_running (Watch_loop cs orch_init) \<longleftrightarrow> closedBy cs = None) \<and>
   (closedBy cs = None \<longrightarrow> or_ret (Watch_loop cs orch_init) = replicate (length cs) Send) \<and>
   (\<forall>k. closedBy cs = Some k \<longrightarrow>
      (\<exists>pre c post. cs = pre @ c # post \<and> (\<forall>x \<in> set pre. closes x = None) \<and> closes c = Some k \<and>
         or_ret (Watch_loop cs orch_init) = replicate (length pre) Send @ [Close])) \<and>
   count_list (or_ret (Watch_loop cs orch_init)) Close \<le> 1"
proof (cases "closedBy cs")
  case None
  then have all: "\<forall>x \<in> set cs. closes x = None" by (simp add: closedBy_None)
  have run: "or_running orch_init" by (simp add: orch_init_def)
  from Watch_loop_forwards [OF run all, of "[]"]
  have eq: "Watch_loop cs orch_init = orch_init\<lparr>or_ret := or_ret orch_init @ replicate (length cs) Send\<rparr>"
    by simp
  have r: "or_ret (Watch_loop cs orch_init) = replicate (length cs) Send"
    unfolding eq by (simp add: orch_init_def)
  have "or_running (Watch_loop cs orch_init)" unfolding eq by (simp add: orch_init_def)
  with None r show ?thesis by (simp add: count_list_replicate_Send)
next
  case (Some k)
  from closedBy_Some [OF Some] obtain pre c post where
    d: "cs = pre @ c # post" "\<forall>x \<in> set pre. closes x = None" "closes c = Some k" by blast
  have run: "or_running orch_init" by (simp add: orch_init_def)
  from Watch_loop_closes [OF run d(2,3), of post]
  have eq: "Watch_loop cs orch_init =
      orch_init\<lparr>or_running := False, or_ret := or_ret orch_init @ replicate (length pre) Send @ [Close]\<rparr>"
    unfolding d(1) .
  have r: "or_ret (Watch_loop cs orch_init) = replicate (length pre) Send @ [Close]"
    unfolding eq by (simp add: orch_init_def)
  have nr: "\<not> or_running (Watch_loop cs orch_init)" unfolding eq by simp
  have cnt: "count_list (or_ret (Watch_loop cs orch_init)) Close \<le> 1"
    unfolding r by (simp add: count_list_replicate_Send)
  from d r have "\<exists>pre c post. cs = pre @ c # post \<and> (\<forall>x \<in> set pre. closes x = None) \<and>
      closes c = Some k \<and> or_ret (Watch_loop cs orch_init) = replicate (length pre) Send @ [Close]"
    by blast
  with Some nr cnt show ?thesis by simp
qed

theorem Watch_closes_once_witness:
  "closedBy [OrFile True, OrFile True, OrSymlinks, OrFile True, OrCtxDone] = Some ChainWatcherClosed \<and>
   \<not> or_running (Watch_loop [OrFile True, OrFile True, OrSymlinks, OrFile True, OrCtxDone] orch_init) \<and>
   or_ret (Watch_loop [OrFile True, OrFile True, OrSymlinks, OrFile True, OrCtxDone] orch_init)
     = [Send, Send, Close] \<and>
   count_list (or_ret (Watch_loop [OrFile True, OrFile True, OrSymlinks, OrFile True, OrCtxDone]
     orch_init)) Close \<le> 1"
proof -
  have k: "closedBy [OrFile True, OrFile True, OrSymlinks, OrFile True, OrCtxDone]
      = Some ChainWatcherClosed" by simp
  have r: "or_ret (Watch_loop [OrFile True, OrFile True, OrSymlinks, OrFile True, OrCtxDone] orch_init)
     = [Send, Send, Close]" by (simp add: orch_init_def orch_return_def)
  from Watch_closes_once [of "[OrFile True, OrFile True, OrSymlinks, OrFile True, OrCtxDone]"] k r
  show ?thesis by simp
qed

text \<open>
  C8 as stated fails: with the chain watcher's channel already closed and a
  direct-watcher signal waiting, the receive from \<^verbatim>\<open>fileWatcher\<close> can proceed, and when
  the \<^verbatim>\<open>select\<close> takes it the signal is forwarded and the orchestrator runs on.
\<close>

theorem Watch_forwards_after_drift:
  "symlinksChanClosed driftWithPendingSignal \<and>
   ready driftWithPendingSignal (OrFile True) \<and>
   Watch_loop [OrFile True] orch_init = \<lparr>or_running = True, or_ret = [Send]\<rparr>"
  by (simp add: driftWithPendingSignal_def orch_init_def)

text \<open>
  C8, amended. When the orchestrator's \<^verbatim>\<open>select\<close> takes the receive from the chain
  watcher's channel, it closes the handle and stops, and whatever could be received
  afterwards, a waiting direct-watcher signal included, is not forwarded.
\<close>

theorem Watch_stops_on_symlinks_case:
  "or_running s \<Longrightarrow>
     Watch_loop (OrSymlinks # rest) s = s\<lparr>or_running := False, or_ret := or_ret s @ [Close]\<rparr>"
  by (simp add: Watch_loop_stopped orch_return_def)

theorem Watch_stops_on_symlinks_case_witness:
  "or_running \<lparr>or_running = True, or_ret = [Send]\<rparr> \<and>
   Watch_loop [OrSymlinks, OrFile True, OrFile True] \<lparr>or_running = True, or_ret = [Send]\<rparr>
     = \<lparr>or_running = False, or_ret = [Send, Close]\<rparr>"
  using Watch_stops_on_symlinks_case
    [of "\<lparr>or_running = True, or_ret = [Send]\<rparr>" "[OrFile True, OrFile True]"]
  by simp

end
